theory Spec2Isabelle
  imports Main
begin

section \<open>The lock of libos/include/libos_lock.h\<close>

text \<open>
  The header implements a mutual-exclusion lock on top of one platform event. This theory
  embeds its functions and macros and the part of the platform they call.

  Names: an Isabelle identifier cannot begin with an underscore, so the C function
  \<^verbatim>\<open>_lock\<close> is \<open>u_lock\<close> here, \<^verbatim>\<open>_unlock\<close> is \<open>u_unlock\<close>, and so on; the static
  variable \<^verbatim>\<open>__create_lock_result\<close> is the field \<open>uu_create_lock_result\<close>. The header
  defines every wrapping macro twice (with and without \<^verbatim>\<open>LOCK_TRACING\<close>); the two
  versions of \<^verbatim>\<open>lock(l)\<close> are \<open>lock_tracing\<close> and \<open>lock_plain\<close>, and likewise for the
  other four.
\<close>

subsection \<open>Data\<close>

text \<open>
  \<^verbatim>\<open>struct libos_lock\<close> is declared in another header, libos_types.h; this header
  uses exactly two fields of it, \<^verbatim>\<open>l->lock\<close> (a platform handle, a pointer that may be
  \<^verbatim>\<open>NULL\<close>) and \<^verbatim>\<open>l->owner\<close> (a thread identifier, 0 for nobody). \<open>None\<close> is the
  \<^verbatim>\<open>NULL\<close> handle.
\<close>

type_synonym pal_handle = nat
type_synonym tid = nat

record libos_lock =
  lock :: "pal_handle option"
  owner :: tid

text \<open>The state of one platform event: a binary signal, and whether a wait consumes it.\<close>

record pal_event =
  signaled :: bool
  auto_clear :: bool

text \<open>
  Every call that leaves the header (to the platform or to the log) is recorded, in
  order, together with the contents of the lock structure at the moment of the call.
\<close>

datatype pal_call =
    Call_PalEventCreate bool bool
  | Call_PalEventWait "pal_handle option"
  | Call_PalEventSet "pal_handle option"
  | Call_PalObjectDestroy "pal_handle option"
  | Call_log_trace string "pal_handle option"

text \<open>
  The world one lock lives in: the structure \<open>*l\<close> itself, the header's static
  variable, the platform's live events, the handle the platform hands out next, how many of
  the coming \<^verbatim>\<open>PalEventCreate\<close> and \<^verbatim>\<open>PalEventWait\<close> calls the platform will fail, and the
  record of calls.
\<close>

record world =
  mem :: libos_lock
  uu_create_lock_result :: bool
  events :: "pal_handle \<rightharpoonup> pal_event"
  next_handle :: pal_handle
  create_faults :: nat
  wait_faults :: nat
  calls :: "(pal_call \<times> libos_lock) list"

text \<open>
  How a call of a \<^verbatim>\<open>void\<close> function of the header ends: it returns, it is suspended
  in the platform's wait with nobody left to wake it, or an \<^verbatim>\<open>assert\<close> of the header
  fails (assertions are compiled in, as in a debug build). Each carries the world at
  that point.
\<close>

datatype outcome = Returned world | Blocked world | Aborted world

subsection \<open>The platform and the log\<close>

definition log_call :: "pal_call \<Rightarrow> world \<Rightarrow> world" where
  "log_call c w = w\<lparr>calls := calls w @ [(c, mem w)]\<rparr>"

text \<open>
  Modelled from the spec: the platform's error return. The error codes are the platform's
  (pal.h); the header only tests the sign of \<^verbatim>\<open>PalEventWait\<close>'s result and whether
  \<^verbatim>\<open>PalEventCreate\<close>'s result is 0, so one negative code stands for every error.
\<close>

definition pal_error :: int where
  "pal_error = - 1"

text \<open>
  Modelled from the spec: \<^verbatim>\<open>PalEventCreate(&l->lock, init_signaled, auto_clear)\<close>, the
  platform's \<open>create(initial_signaled, auto_clear) -> handle | error\<close>. On success it
  stores a new handle into \<^verbatim>\<open>l->lock\<close> and returns 0; on failure it returns an
  error and stores nothing.
\<close>

definition PalEventCreate :: "bool \<Rightarrow> bool \<Rightarrow> world \<Rightarrow> int \<times> world" where
  "PalEventCreate init_signaled auto_clr w =
     (let w1 = log_call (Call_PalEventCreate init_signaled auto_clr) w in
      if 0 < create_faults w1
      then (pal_error, w1\<lparr>create_faults := create_faults w1 - 1\<rparr>)
      else (0, w1\<lparr>mem := (mem w1)\<lparr>lock := Some (next_handle w1)\<rparr>,
                   events := (events w1)(next_handle w1 \<mapsto>
                               \<lparr>signaled = init_signaled, auto_clear = auto_clr\<rparr>),
                   next_handle := Suc (next_handle w1)\<rparr>))"

text \<open>
  Modelled from the spec: \<^verbatim>\<open>PalEventWait(handle, NULL)\<close>, the platform's
  \<open>wait(handle, timeout) -> success | error\<close> with no timeout. A pending transient
  error is reported first. Otherwise the wait is granted when the event is signaled, and
  with auto-clear the same step resets the event; on an event that is not signaled (or
  not there) the call does not return: the result is \<open>None\<close>.
\<close>

definition PalEventWait :: "pal_handle option \<Rightarrow> world \<Rightarrow> int option \<times> world" where
  "PalEventWait h w =
     (let w1 = log_call (Call_PalEventWait h) w in
      if 0 < wait_faults w1
      then (Some pal_error, w1\<lparr>wait_faults := wait_faults w1 - 1\<rparr>)
      else (case h of
              None \<Rightarrow> (None, w1)
            | Some a \<Rightarrow>
                (case events w1 a of
                   None \<Rightarrow> (None, w1)
                 | Some e \<Rightarrow>
                     if signaled e
                     then (Some 0, if auto_clear e
                                   then w1\<lparr>events := (events w1)(a \<mapsto> e\<lparr>signaled := False\<rparr>)\<rparr>
                                   else w1)
                     else (None, w1))))"

text \<open>Modelled from the spec: \<^verbatim>\<open>PalEventSet(handle)\<close>, the platform's \<open>signal(handle)\<close>.\<close>

definition PalEventSet :: "pal_handle option \<Rightarrow> world \<Rightarrow> world" where
  "PalEventSet h w =
     (let w1 = log_call (Call_PalEventSet h) w in
      case h of
        None \<Rightarrow> w1
      | Some a \<Rightarrow>
          (case events w1 a of
             None \<Rightarrow> w1
           | Some e \<Rightarrow> w1\<lparr>events := (events w1)(a \<mapsto> e\<lparr>signaled := True\<rparr>)\<rparr>))"

text \<open>
  Modelled from the spec: \<^verbatim>\<open>PalObjectDestroy(handle)\<close>, the platform's
  \<open>destroy(handle)\<close>: the event is no longer live. The spec does not say what the
  platform does when the handle is \<^verbatim>\<open>NULL\<close>; here the call is recorded and nothing
  else happens.
\<close>

definition PalObjectDestroy :: "pal_handle option \<Rightarrow> world \<Rightarrow> world" where
  "PalObjectDestroy h w =
     (let w1 = log_call (Call_PalObjectDestroy h) w in
      case h of
        None \<Rightarrow> w1
      | Some a \<Rightarrow> w1\<lparr>events := (events w1)(a := None)\<rparr>)"

text \<open>
  Modelled from the spec: \<^verbatim>\<open>log_trace(fmt, (l)->lock)\<close>, the trace sink. It receives
  the format and the handle and touches nothing else.
\<close>

definition log_trace :: "string \<Rightarrow> pal_handle option \<Rightarrow> world \<Rightarrow> world" where
  "log_trace fmt p w = log_call (Call_log_trace fmt p) w"

subsection \<open>The functions of the header\<close>

text \<open>\<^verbatim>\<open>lock_created\<close>, lines 16-18.\<close>

definition lock_created :: "world \<Rightarrow> bool" where
  "lock_created w = (lock (mem w) \<noteq> None)"

text \<open>\<^verbatim>\<open>_clear_lock\<close>, lines 52-55.\<close>

definition u_clear_lock :: "world \<Rightarrow> world" where
  "u_clear_lock w =
     (let w1 = w\<lparr>mem := (mem w)\<lparr>lock := None\<rparr>\<rparr>
      in w1\<lparr>mem := (mem w1)\<lparr>owner := 0\<rparr>\<rparr>)"

text \<open>\<^verbatim>\<open>_create_lock\<close>, lines 57-60.\<close>

definition u_create_lock :: "world \<Rightarrow> bool \<times> world" where
  "u_create_lock w =
     (let w1 = w\<lparr>mem := (mem w)\<lparr>owner := 0\<rparr>\<rparr>;
          (r, w2) = PalEventCreate True True w1
      in (r = 0, w2))"

text \<open>\<^verbatim>\<open>_destroy_lock\<close>, lines 62-65.\<close>

definition u_destroy_lock :: "world \<Rightarrow> world" where
  "u_destroy_lock w = u_clear_lock (PalObjectDestroy (lock (mem w)) w)"

text \<open>
  The loop of \<^verbatim>\<open>_lock\<close>, line 70: call \<^verbatim>\<open>PalEventWait(l->lock, NULL)\<close> again as long
  as it returns a negative value. The handle is read from the structure at every call.
\<close>

function lock_wait_loop :: "world \<Rightarrow> outcome" where
  "lock_wait_loop w =
     (case PalEventWait (lock (mem w)) w of
        (None, w1) \<Rightarrow> Blocked w1
      | (Some r, w1) \<Rightarrow> if r < 0 then lock_wait_loop w1 else Returned w1)"
  by pat_completeness auto
termination
  by (relation "measure wait_faults")
     (auto simp: PalEventWait_def log_call_def Let_def pal_error_def
           split: if_splits option.splits)

text \<open>
  \<^verbatim>\<open>_lock\<close>, lines 67-74. \<open>t\<close> is what \<^verbatim>\<open>get_cur_tid()\<close> returns: the identifier of
  the calling thread.
\<close>

definition u_lock :: "tid \<Rightarrow> world \<Rightarrow> outcome" where
  "u_lock t w =
     (if lock (mem w) = None then Aborted w
      else (case lock_wait_loop w of
              Returned w1 \<Rightarrow> Returned (w1\<lparr>mem := (mem w1)\<lparr>owner := t\<rparr>\<rparr>)
            | Blocked w1 \<Rightarrow> Blocked w1
            | Aborted w1 \<Rightarrow> Aborted w1))"

text \<open>\<^verbatim>\<open>_unlock\<close>, lines 76-80.\<close>

definition u_unlock :: "world \<Rightarrow> outcome" where
  "u_unlock w =
     (if lock (mem w) = None then Aborted w
      else (let w1 = w\<lparr>mem := (mem w)\<lparr>owner := 0\<rparr>\<rparr>
            in Returned (PalEventSet (lock (mem w1)) w1)))"

text \<open>\<^verbatim>\<open>locked\<close>, lines 83-88 (compiled only with \<^verbatim>\<open>DEBUG\<close>); \<open>t\<close> is \<^verbatim>\<open>get_cur_tid()\<close>.\<close>

definition locked :: "tid \<Rightarrow> world \<Rightarrow> bool" where
  "locked t w = (if lock (mem w) = None then False else t = owner (mem w))"

subsection \<open>Several locks, and the expression a macro is applied to\<close>

text \<open>
  The macros of lines 35-49 paste the text of their argument into their body, some of them
  twice, so what they do depends on the expression they are applied to: each pasted copy
  is evaluated, with its side effects, and two copies may designate two different locks.
  For the macros the memory therefore holds a lock structure at every address, and one
  pointer variable \<open>var_p\<close> of the calling code for an expression to read or change. \<open>sys\<close>
  is everything else (the static variable, the platform, the record of calls); its \<open>mem\<close>
  field is not used.
\<close>

type_synonym lock_ptr = nat

record machine =
  locks :: "lock_ptr \<Rightarrow> libos_lock"
  var_p :: lock_ptr
  sys :: world

text \<open>
  An argument expression: evaluated in a machine it gives the address of a lock and the
  machine after its side effects. \<^verbatim>\<open>&locks[a]\<close> is \<open>addr_of a\<close>, \<^verbatim>\<open>p\<close> is \<open>ptr_var\<close>,
  \<^verbatim>\<open>p++\<close> is \<open>post_incr\<close>.
\<close>

type_synonym lock_expr = "machine \<Rightarrow> lock_ptr \<times> machine"




text \<open>
  The functions of the header work on the lock their pointer argument designates:
  \<open>focus p m\<close> is the world with the lock at address \<open>p\<close> as its lock, and
  \<open>unfocus p w m\<close> puts the lock of world \<open>w\<close> back at address \<open>p\<close>.
\<close>

definition focus :: "lock_ptr \<Rightarrow> machine \<Rightarrow> world" where
  "focus p m = (sys m)\<lparr>mem := locks m p\<rparr>"

definition unfocus :: "lock_ptr \<Rightarrow> world \<Rightarrow> machine \<Rightarrow> machine" where
  "unfocus p w m = m\<lparr>locks := (locks m)(p := mem w), sys := w\<lparr>mem := mem (sys m)\<rparr>\<rparr>"

text \<open>How a call of \<^verbatim>\<open>_lock\<close> or \<^verbatim>\<open>_unlock\<close> through a pointer ends.\<close>

datatype result = Done machine | Stuck machine | Failed machine

text \<open>The calls \<^verbatim>\<open>func(p)\<close> for the three shapes of function in the header.\<close>

definition call_at :: "(world \<Rightarrow> outcome) \<Rightarrow> lock_ptr \<Rightarrow> machine \<Rightarrow> result" where
  "call_at func p m =
     (case func (focus p m) of
        Returned w \<Rightarrow> Done (unfocus p w m)
      | Blocked w \<Rightarrow> Stuck (unfocus p w m)
      | Aborted w \<Rightarrow> Failed (unfocus p w m))"



text \<open>\<^verbatim>\<open>log_trace(fmt, p->lock)\<close>: the handle is read from the lock at \<open>p\<close>.\<close>

definition trace_at :: "string \<Rightarrow> lock_ptr \<Rightarrow> machine \<Rightarrow> machine" where
  "trace_at fmt p m = unfocus p (log_trace fmt (lock (locks m p)) (focus p m)) m"

subsection \<open>The wrapping macros, lines 20-50\<close>

text \<open>
  With \<^verbatim>\<open>LOCK_TRACING\<close> defined (line 21 defines it), lines 35-43. \<open>l\<close> is the
  argument expression and \<open>nm\<close> its text, which \<^verbatim>\<open>#l\<close> pastes into the format string.
  The comma operator evaluates its operands left to right, one after the other. The
  bodies of \<^verbatim>\<open>LOCK_PRE_TRACE\<close> and \<^verbatim>\<open>LOCK_POST_TRACE\<close> are not parenthesised; the
  definitions are the macros used as a statement of their own, as \<^verbatim>\<open>lock(l);\<close>.

  \<^verbatim>\<open>LOCK_PRE_TRACE(func, l)\<close> is \<^verbatim>\<open>log_trace(.., (l)->lock), func(l)\<close>: the argument is
  evaluated for the log, the log is written, the argument is evaluated again, and the
  function is called on what the second evaluation gives.
\<close>

definition trace_fmt :: "string \<Rightarrow> string \<Rightarrow> string" where
  "trace_fmt func nm = func @ ''(%p/'' @ nm @ '')''"







text \<open>
  \<^verbatim>\<open>create_lock(l)\<close>, lines 35-37, is three operands:
  \<^verbatim>\<open>__create_lock_result = _create_lock(l)\<close> stores what the function returns in the
  static variable, which all threads share (lines 30-33);
  \<^verbatim>\<open>log_trace(.., (l)->lock)\<close> evaluates the argument again and logs;
  \<^verbatim>\<open>__create_lock_result\<close> reads the static variable back, and that is the value of the
  macro. \<open>create_lock_store\<close> also gives what \<^verbatim>\<open>_create_lock\<close> returned, which the
  macro itself keeps nowhere but in the static variable.
\<close>

definition create_lock_store :: "lock_expr \<Rightarrow> machine \<Rightarrow> bool \<times> machine" where
  "create_lock_store l m =
     (let (p, m1) = l m;
          (r, w) = u_create_lock (focus p m1)
      in (r, unfocus p (w\<lparr>uu_create_lock_result := r\<rparr>) m1))"

definition create_lock_trace :: "lock_expr \<Rightarrow> string \<Rightarrow> machine \<Rightarrow> machine" where
  "create_lock_trace l nm m =
     (let (p, m1) = l m in trace_at (trace_fmt ''_create_lock'' nm) p m1)"

definition create_lock_yield :: "machine \<Rightarrow> bool" where
  "create_lock_yield m = uu_create_lock_result (sys m)"

text \<open>The three operands one after the other, with nothing in between.\<close>

definition create_lock_tracing :: "lock_expr \<Rightarrow> string \<Rightarrow> machine \<Rightarrow> bool \<times> machine" where
  "create_lock_tracing l nm m =
     (let (r, m1) = create_lock_store l m;
          m2 = create_lock_trace l nm m1
      in (create_lock_yield m2, m2))"

text \<open>
  Several threads in \<^verbatim>\<open>create_lock\<close> at once, each on its own argument, one operand at a
  time in any order. A thread has not begun, has stored, has logged, or has the macro's
  value; it carries along what \<^verbatim>\<open>_create_lock\<close> returned to it, so that the two can be
  compared: \<open>Yielded r v\<close> says the function returned \<open>r\<close> and the macro gave \<open>v\<close>.
\<close>

datatype create_pc = Not_begun | Stored bool | Traced bool | Yielded bool bool

record creators =
  machine_now :: machine
  create_pcs :: "tid \<Rightarrow> create_pc"

definition create_step :: "(tid \<Rightarrow> lock_expr) \<Rightarrow> string \<Rightarrow> tid \<Rightarrow> creators \<Rightarrow> creators" where
  "create_step args nm t c =
     (case create_pcs c t of
        Not_begun \<Rightarrow>
          (let (r, m1) = create_lock_store (args t) (machine_now c)
           in c\<lparr>machine_now := m1, create_pcs := (create_pcs c)(t := Stored r)\<rparr>)
      | Stored r \<Rightarrow>
          c\<lparr>machine_now := create_lock_trace (args t) nm (machine_now c),
            create_pcs := (create_pcs c)(t := Traced r)\<rparr>
      | Traced r \<Rightarrow>
          c\<lparr>create_pcs := (create_pcs c)(t := Yielded r (create_lock_yield (machine_now c)))\<rparr>
      | Yielded r v \<Rightarrow> c)"

fun create_run :: "(tid \<Rightarrow> lock_expr) \<Rightarrow> string \<Rightarrow> tid list \<Rightarrow> creators \<Rightarrow> creators" where
  "create_run args nm [] c = c"
| "create_run args nm (t # ts) c = create_run args nm ts (create_step args nm t c)"







subsection \<open>Several threads on one lock\<close>

text \<open>
  Threads that share the lock run \<^verbatim>\<open>_lock\<close> and \<^verbatim>\<open>_unlock\<close> one statement at a
  time, interleaved in any order. A thread is at one of these places:
  \<^item> \<open>Idle\<close>: outside, not holding the lock; its next statement is line 68 of \<^verbatim>\<open>_lock\<close>;
  \<^item> \<open>At_wait\<close>: in \<^verbatim>\<open>_lock\<close>, about to call \<^verbatim>\<open>PalEventWait\<close> (line 70);
  \<^item> \<open>At_store\<close>: the wait has returned a non-negative value; next is line 73;
  \<^item> \<open>Critical\<close>: \<^verbatim>\<open>_lock\<close> has returned and \<^verbatim>\<open>_unlock\<close> is not called yet; its next
    statement is line 77 of \<^verbatim>\<open>_unlock\<close>;
  \<^item> \<open>At_clear\<close>: in \<^verbatim>\<open>_unlock\<close>, next is line 78;
  \<^item> \<open>At_set\<close>: in \<^verbatim>\<open>_unlock\<close>, about to call \<^verbatim>\<open>PalEventSet\<close> (line 79).
  A failed assertion aborts the process: \<open>crashed\<close> is set and nothing runs any more.
  The thread's identifier is what \<^verbatim>\<open>get_cur_tid()\<close> returns to it.
\<close>

datatype pc = Idle | At_wait | At_store | Critical | At_clear | At_set

record conc =
  shared :: world
  pcs :: "tid \<Rightarrow> pc"
  crashed :: bool

definition step :: "tid \<Rightarrow> conc \<Rightarrow> conc" where
  "step t s =
     (if crashed s then s
      else (case pcs s t of
          Idle \<Rightarrow>
            if lock (mem (shared s)) = None then s\<lparr>crashed := True\<rparr>
            else s\<lparr>pcs := (pcs s)(t := At_wait)\<rparr>
        | At_wait \<Rightarrow>
            (case PalEventWait (lock (mem (shared s))) (shared s) of
               (None, w1) \<Rightarrow> s
             | (Some r, w1) \<Rightarrow>
                 if r < 0 then s\<lparr>shared := w1\<rparr>
                 else s\<lparr>shared := w1, pcs := (pcs s)(t := At_store)\<rparr>)
        | At_store \<Rightarrow>
            s\<lparr>shared := (shared s)\<lparr>mem := (mem (shared s))\<lparr>owner := t\<rparr>\<rparr>,
              pcs := (pcs s)(t := Critical)\<rparr>
        | Critical \<Rightarrow>
            if lock (mem (shared s)) = None then s\<lparr>crashed := True\<rparr>
            else s\<lparr>pcs := (pcs s)(t := At_clear)\<rparr>
        | At_clear \<Rightarrow>
            s\<lparr>shared := (shared s)\<lparr>mem := (mem (shared s))\<lparr>owner := 0\<rparr>\<rparr>,
              pcs := (pcs s)(t := At_set)\<rparr>
        | At_set \<Rightarrow>
            s\<lparr>shared := PalEventSet (lock (mem (shared s))) (shared s),
              pcs := (pcs s)(t := Idle)\<rparr>))"

text \<open>
  A schedule says who moves next: a thread executes its next statement, or the
  environment makes one more transient error pending for the platform's wait.
\<close>

datatype move = Run tid | Interrupt

definition act :: "move \<Rightarrow> conc \<Rightarrow> conc" where
  "act m s =
     (case m of
        Run t \<Rightarrow> step t s
      | Interrupt \<Rightarrow> s\<lparr>shared := (shared s)\<lparr>wait_faults := Suc (wait_faults (shared s))\<rparr>\<rparr>)"

fun run :: "move list \<Rightarrow> conc \<Rightarrow> conc" where
  "run [] s = s"
| "run (m # ms) s = run ms (act m s)"

definition start :: "world \<Rightarrow> conc" where
  "start w = \<lparr>shared = w, pcs = (\<lambda>t. Idle), crashed = False\<rparr>"

text \<open>A thread between a successful wait and its \<^verbatim>\<open>PalEventSet\<close> has the signal.\<close>

definition has_signal :: "pc \<Rightarrow> bool" where
  "has_signal p = (p = At_store \<or> p = Critical \<or> p = At_clear \<or> p = At_set)"

definition lock_inv :: "conc \<Rightarrow> bool" where
  "lock_inv s =
     (\<exists>h e. lock (mem (shared s)) = Some h \<and> events (shared s) h = Some e \<and> auto_clear e \<and>
            (signaled e \<longrightarrow> (\<forall>t. \<not> has_signal (pcs s t))) \<and>
            (\<forall>t u. has_signal (pcs s t) \<longrightarrow> has_signal (pcs s u) \<longrightarrow> t = u))"

text \<open>Counting the recorded calls of \<^verbatim>\<open>PalEventWait\<close>.\<close>

fun is_wait :: "pal_call \<Rightarrow> bool" where
  "is_wait (Call_PalEventWait h) = True"
| "is_wait c = False"

definition wait_calls :: "world \<Rightarrow> nat" where
  "wait_calls w = length (filter is_wait (map fst (calls w)))"

subsection \<open>Looking past the trace\<close>






fun machine_of :: "result \<Rightarrow> machine" where
  "machine_of (Done m) = m"
| "machine_of (Stuck m) = m"
| "machine_of (Failed m) = m"

subsection \<open>Concrete worlds\<close>

text \<open>A world where nothing has happened yet: the lock is empty and no event is live.\<close>

definition world0 :: world where
  "world0 = \<lparr>mem = \<lparr>lock = None, owner = 0\<rparr>, uu_create_lock_result = False,
             events = Map.empty, next_handle = 1, create_faults = 0, wait_faults = 0,
             calls = []\<rparr>"

text \<open>A lock as \<^verbatim>\<open>_create_lock\<close> leaves it: handle 1, nobody owns it, the event signaled.\<close>

definition world1 :: world where
  "world1 = world0\<lparr>mem := \<lparr>lock = Some 1, owner = 0\<rparr>,
                    events := [1 \<mapsto> \<lparr>signaled = True, auto_clear = True\<rparr>],
                    next_handle := 2\<rparr>"



section \<open>Properties\<close>

subsection \<open>Clearing\<close>

lemma u_clear_lock_eq: "u_clear_lock w = w\<lparr>mem := (mem w)\<lparr>lock := None, owner := 0\<rparr>\<rparr>"
  by (simp add: u_clear_lock_def Let_def)

text \<open>
  C7. \<^verbatim>\<open>_clear_lock\<close> changes nothing but the two fields of the lock, which both
  become empty (\<^verbatim>\<open>NULL\<close> and 0) whatever they were; it makes no call (the record of
  calls and the platform's events are as before); clearing twice is clearing once; and
  on a lock that is already empty it changes nothing at all.
\<close>

theorem clear_lock_idempotent:
  "u_clear_lock w = w\<lparr>mem := (mem w)\<lparr>lock := None, owner := 0\<rparr>\<rparr> \<and>
   lock (mem (u_clear_lock w)) = None \<and> owner (mem (u_clear_lock w)) = 0 \<and>
   calls (u_clear_lock w) = calls w \<and> events (u_clear_lock w) = events w \<and>
   u_clear_lock (u_clear_lock w) = u_clear_lock w \<and>
   (lock (mem w) = None \<and> owner (mem w) = 0 \<longrightarrow> u_clear_lock w = w)"
  by (simp add: u_clear_lock_def Let_def)

theorem clear_lock_idempotent_witness:
  "lock (mem world0) = None \<and> owner (mem world0) = 0 \<and> u_clear_lock world0 = world0"
  using clear_lock_idempotent [of world0] by (simp add: world0_def)

subsection \<open>The wait loop\<close>

declare lock_wait_loop.simps [simp del]

lemma PalEventWait_fault:
  "0 < wait_faults w \<Longrightarrow>
   PalEventWait h w = (Some pal_error, w\<lparr>wait_faults := wait_faults w - 1,
                                         calls := calls w @ [(Call_PalEventWait h, mem w)]\<rparr>)"
  by (simp add: PalEventWait_def log_call_def Let_def)

lemma PalEventWait_granted:
  "wait_faults w = 0 \<Longrightarrow> events w a = Some e \<Longrightarrow> signaled e \<Longrightarrow>
   PalEventWait (Some a) w =
     (Some 0, w\<lparr>calls := calls w @ [(Call_PalEventWait (Some a), mem w)],
                events := (if auto_clear e then (events w)(a \<mapsto> e\<lparr>signaled := False\<rparr>)
                           else events w)\<rparr>)"
  by (simp add: PalEventWait_def log_call_def Let_def)

lemma PalEventWait_returns:
  "PalEventWait h w = (Some r, w1) \<Longrightarrow>
   mem w1 = mem w \<and>
   (r < 0 \<and> 0 < wait_faults w \<or>
    r = 0 \<and> (\<exists>a e. h = Some a \<and> events w a = Some e \<and> signaled e))"
  by (auto simp: PalEventWait_def log_call_def Let_def pal_error_def
           split: if_splits option.splits)

lemma PalEventWait_frame:
  "PalEventWait h w = (x, w1) \<Longrightarrow>
   mem w1 = mem w \<and>
   (0 < wait_faults w \<longrightarrow> events w1 = events w \<and> Suc (wait_faults w1) = wait_faults w)"
  by (auto simp: PalEventWait_def log_call_def Let_def split: if_splits option.splits)

lemma lock_wait_loop_step:
  "PalEventWait (lock (mem w)) w = (Some r, w1) \<Longrightarrow> r < 0 \<Longrightarrow>
     lock_wait_loop w = lock_wait_loop w1"
  "PalEventWait (lock (mem w)) w = (Some r, w1) \<Longrightarrow> \<not> r < 0 \<Longrightarrow>
     lock_wait_loop w = Returned w1"
  "PalEventWait (lock (mem w)) w = (None, w1) \<Longrightarrow> lock_wait_loop w = Blocked w1"
  by (subst lock_wait_loop.simps, simp)+

text \<open>
  On a signaled event the loop ends after one call more than there are transient errors
  pending, and the calls are all it adds to the record.
\<close>

lemma lock_wait_loop_signaled:
  "lock (mem w) = Some h \<Longrightarrow> events w h = Some e \<Longrightarrow> signaled e \<Longrightarrow>
   lock_wait_loop w =
     Returned (w\<lparr>wait_faults := 0,
                 calls := calls w @
                   replicate (Suc (wait_faults w)) (Call_PalEventWait (Some h), mem w),
                 events := (if auto_clear e then (events w)(h \<mapsto> e\<lparr>signaled := False\<rparr>)
                            else events w)\<rparr>)"
proof (induction "wait_faults w" arbitrary: w)
  case 0
  then show ?case
    by (subst lock_wait_loop.simps) (simp add: PalEventWait_granted)
next
  case (Suc n)
  let ?w1 = "w\<lparr>wait_faults := wait_faults w - 1,
               calls := calls w @ [(Call_PalEventWait (Some h), mem w)]\<rparr>"
  have f: "PalEventWait (lock (mem w)) w = (Some pal_error, ?w1)"
    using Suc.hyps(2) Suc.prems(1) by (simp add: PalEventWait_fault)
  have again: "lock_wait_loop w = lock_wait_loop ?w1"
    by (rule lock_wait_loop_step(1) [OF f]) (simp add: pal_error_def)
  have n: "n = wait_faults ?w1" using Suc.hyps(2) by simp
  have "lock_wait_loop ?w1 = Returned (?w1\<lparr>wait_faults := 0,
          calls := calls ?w1 @
            replicate (Suc (wait_faults ?w1)) (Call_PalEventWait (Some h), mem ?w1),
          events := (if auto_clear e then (events ?w1)(h \<mapsto> e\<lparr>signaled := False\<rparr>)
                     else events ?w1)\<rparr>)"
    using Suc.prems by (intro Suc.hyps(1) [OF n]) simp_all
  then show ?case
    using Suc.hyps(2) by (simp add: again replicate_app_Cons_same)
qed

text \<open>The loop returns only from a wait on a signaled event, and leaves the lock as it was.\<close>

lemma lock_wait_loop_returned:
  "lock_wait_loop w = Returned w' \<Longrightarrow>
   mem w' = mem w \<and> (\<exists>h e. lock (mem w) = Some h \<and> events w h = Some e \<and> signaled e)"
proof (induction "wait_faults w" arbitrary: w)
  case 0
  obtain x w1 where p: "PalEventWait (lock (mem w)) w = (x, w1)"
    by (cases "PalEventWait (lock (mem w)) w")
  show ?case
  proof (cases x)
    case None
    with p "0.prems" show ?thesis by (simp add: lock_wait_loop_step)
  next
    case (Some r)
    from PalEventWait_returns [OF p [unfolded Some]] "0.hyps"
    have r: "mem w1 = mem w" "r = 0"
      "\<exists>a e. lock (mem w) = Some a \<and> events w a = Some e \<and> signaled e"
      by auto
    with p Some "0.prems" have "w' = w1" by (simp add: lock_wait_loop_step)
    with r show ?thesis by simp
  qed
next
  case (Suc n)
  obtain x w1 where p: "PalEventWait (lock (mem w)) w = (x, w1)"
    by (cases "PalEventWait (lock (mem w)) w")
  from Suc.hyps(2) have pos: "0 < wait_faults w" by simp
  from PalEventWait_fault [OF pos] p have x: "x = Some pal_error" by simp
  from PalEventWait_frame [OF p] pos Suc.hyps(2)
  have fr: "mem w1 = mem w" "events w1 = events w" "n = wait_faults w1" by auto
  have "lock_wait_loop w1 = Returned w'"
    using Suc.prems p x by (simp add: lock_wait_loop_step(1) pal_error_def)
  from Suc.hyps(1) [OF fr(3) this] fr show ?case by simp
qed

lemma u_lock_signaled:
  "lock (mem w) = Some h \<Longrightarrow> events w h = Some e \<Longrightarrow> signaled e \<Longrightarrow>
   u_lock t w =
     Returned (w\<lparr>mem := (mem w)\<lparr>owner := t\<rparr>,
                 wait_faults := 0,
                 calls := calls w @
                   replicate (Suc (wait_faults w)) (Call_PalEventWait (Some h), mem w),
                 events := (if auto_clear e then (events w)(h \<mapsto> e\<lparr>signaled := False\<rparr>)
                            else events w)\<rparr>)"
  by (simp add: u_lock_def lock_wait_loop_signaled)

lemma u_lock_returned:
  "u_lock t w = Returned w' \<Longrightarrow>
   owner (mem w') = t \<and> lock (mem w') = lock (mem w) \<and>
   (\<exists>h e. lock (mem w) = Some h \<and> events w h = Some e \<and> signaled e)"
  by (auto simp: u_lock_def split: if_splits outcome.splits dest: lock_wait_loop_returned)

subsection \<open>Acquire\<close>

text \<open>
  C2. For every \<open>N\<close>: when the handle is valid, \<open>N\<close> transient errors are pending and
  the event is signaled (so the wait after them succeeds), \<^verbatim>\<open>_lock\<close> returns, with
  the caller's identifier in \<^verbatim>\<open>owner\<close>, having called \<^verbatim>\<open>PalEventWait\<close> exactly
  \<open>N + 1\<close> times. \<^verbatim>\<open>_lock\<close> has no result to report a failure with; whenever it
  returns, in any world, \<^verbatim>\<open>owner\<close> is the caller and the wait was granted on a
  signaled event.
\<close>

theorem lock_retry:
  assumes "lock (mem w) = Some h" and "events w h = Some e" and "signaled e"
    and "wait_faults w = N"
  shows "(\<exists>w'. u_lock t w = Returned w' \<and> owner (mem w') = t \<and> lock (mem w') = Some h \<and>
               wait_calls w' = wait_calls w + (N + 1)) \<and>
         (\<forall>v v'. u_lock t v = Returned v' \<longrightarrow>
               owner (mem v') = t \<and>
               (\<exists>a ev. lock (mem v) = Some a \<and> events v a = Some ev \<and> signaled ev))"
proof
  show "\<exists>w'. u_lock t w = Returned w' \<and> owner (mem w') = t \<and> lock (mem w') = Some h \<and>
               wait_calls w' = wait_calls w + (N + 1)"
    using assms by (simp add: u_lock_signaled wait_calls_def)
next
  show "\<forall>v v'. u_lock t v = Returned v' \<longrightarrow>
               owner (mem v') = t \<and>
               (\<exists>a ev. lock (mem v) = Some a \<and> events v a = Some ev \<and> signaled ev)"
    by (blast dest: u_lock_returned)
qed

theorem lock_retry_witness:
  "lock (mem (world1\<lparr>wait_faults := 2\<rparr>)) = Some 1 \<and>
   events (world1\<lparr>wait_faults := 2\<rparr>) 1 = Some \<lparr>signaled = True, auto_clear = True\<rparr> \<and>
   signaled \<lparr>signaled = True, auto_clear = True\<rparr> \<and>
   wait_faults (world1\<lparr>wait_faults := 2\<rparr>) = 2 \<and>
   (\<exists>w'. u_lock 7 (world1\<lparr>wait_faults := 2\<rparr>) = Returned w' \<and> owner (mem w') = 7 \<and>
         wait_calls w' = wait_calls (world1\<lparr>wait_faults := 2\<rparr>) + (2 + 1))"
  using lock_retry [of "world1\<lparr>wait_faults := 2\<rparr>" 1
                       "\<lparr>signaled = True, auto_clear = True\<rparr>" 2 7]
  by (simp add: world1_def world0_def) blast

text \<open>
  C8. \<^verbatim>\<open>locked\<close> is false on a lock with an empty handle, and on any other lock it is
  true exactly when the caller's identifier equals \<^verbatim>\<open>owner\<close>. So once \<^verbatim>\<open>_lock\<close>
  has returned to thread \<open>t\<close>, \<^verbatim>\<open>locked\<close> is true for \<open>t\<close> and false for every other
  thread, and after \<open>t\<close>'s \<^verbatim>\<open>_unlock\<close> it is false for \<open>t\<close>. The last part is for
  a thread identifier other than 0, as the thread-identity provider gives them: 0 is the
  value \<^verbatim>\<open>owner\<close> has when nobody holds the lock.
\<close>

theorem locked_query:
  "(lock (mem w) = None \<longrightarrow> \<not> locked t w) \<and>
   (lock (mem w) \<noteq> None \<longrightarrow> locked t w = (t = owner (mem w))) \<and>
   (\<forall>w1. u_lock t w = Returned w1 \<longrightarrow>
      locked t w1 \<and> (\<forall>u. u \<noteq> t \<longrightarrow> \<not> locked u w1) \<and>
      (t \<noteq> 0 \<longrightarrow> (\<exists>w2. u_unlock w1 = Returned w2 \<and> \<not> locked t w2)))"
  by (auto simp: locked_def u_unlock_def PalEventSet_def log_call_def Let_def
           split: option.splits dest: u_lock_returned)

theorem locked_query_witness:
  "\<not> locked 7 world0 \<and>
   (\<exists>w1. u_lock 7 world1 = Returned w1 \<and> locked 7 w1 \<and> \<not> locked 8 w1 \<and>
         (\<exists>w2. u_unlock w1 = Returned w2 \<and> \<not> locked 7 w2))"
proof -
  have e: "\<exists>w1. u_lock 7 world1 = Returned w1"
    by (simp add: u_lock_signaled [of _ 1 "\<lparr>signaled = True, auto_clear = True\<rparr>"]
          world1_def world0_def)
  have n: "lock (mem world0) = None" "(8::nat) \<noteq> 7" "(7::nat) \<noteq> 0"
    by (simp_all add: world0_def)
  from e n locked_query [of world0 7] locked_query [of world1 7] show ?thesis
    by blast
qed

subsection \<open>Release\<close>

text \<open>
  C4. On a lock with a valid handle \<^verbatim>\<open>_unlock\<close> returns, and the one call it makes,
  \<^verbatim>\<open>PalEventSet\<close> on the lock's handle, is made when \<^verbatim>\<open>owner\<close> is already 0: the
  structure as it stands at the moment of the call has the handle and an empty owner,
  whoever held the lock before. The event, when live, is signaled afterwards.
\<close>

theorem unlock_order:
  assumes "lock (mem w) = Some h"
  shows "\<exists>w'. u_unlock w = Returned w' \<and>
           calls w' = calls w @ [(Call_PalEventSet (Some h), \<lparr>lock = Some h, owner = 0\<rparr>)] \<and>
           mem w' = \<lparr>lock = Some h, owner = 0\<rparr> \<and>
           (\<forall>e. events w h = Some e \<longrightarrow> events w' h = Some (e\<lparr>signaled := True\<rparr>))"
  using assms
  by (auto simp: u_unlock_def PalEventSet_def log_call_def Let_def split: option.splits)

theorem unlock_order_witness:
  "lock (mem (world1\<lparr>mem := \<lparr>lock = Some 1, owner = 7\<rparr>\<rparr>)) = Some 1 \<and>
   (\<exists>w'. u_unlock (world1\<lparr>mem := \<lparr>lock = Some 1, owner = 7\<rparr>\<rparr>) = Returned w' \<and>
         calls w' = [(Call_PalEventSet (Some 1), \<lparr>lock = Some 1, owner = 0\<rparr>)] \<and>
         mem w' = \<lparr>lock = Some 1, owner = 0\<rparr> \<and>
         events w' 1 = Some \<lparr>signaled = True, auto_clear = True\<rparr>)"
  using unlock_order [of "world1\<lparr>mem := \<lparr>lock = Some 1, owner = 7\<rparr>\<rparr>" 1]
  by (simp add: world1_def world0_def)

subsection \<open>Create and destroy\<close>

text \<open>
  C5. \<^verbatim>\<open>_create_lock\<close> makes one call, \<^verbatim>\<open>PalEventCreate\<close> with
  \<open>init_signaled = true\<close> and \<open>auto_clear = true\<close>, and at the moment of that call
  \<^verbatim>\<open>owner\<close> is already 0. Its result is true exactly when \<^verbatim>\<open>PalEventCreate\<close>
  returns 0, that is when the platform does not fail the creation. \<^verbatim>\<open>owner\<close> is 0
  afterwards in either case. After success the handle is valid and its event is signaled and
  auto-clearing, so that a first \<^verbatim>\<open>_lock\<close> (with no transient error pending) returns after
  a single wait and leaves the event reset.
\<close>

theorem create_lock_behaviour:
  "(case u_create_lock w of (r, w') \<Rightarrow>
      calls w' = calls w @ [(Call_PalEventCreate True True, (mem w)\<lparr>owner := 0\<rparr>)] \<and>
      owner (mem w') = 0 \<and>
      r = (fst (PalEventCreate True True (w\<lparr>mem := (mem w)\<lparr>owner := 0\<rparr>\<rparr>)) = 0) \<and>
      r = (create_faults w = 0) \<and>
      (r \<longrightarrow> (\<exists>h. lock (mem w') = Some h \<and>
                   events w' h = Some \<lparr>signaled = True, auto_clear = True\<rparr> \<and>
                   (wait_faults w = 0 \<longrightarrow>
                      (\<exists>w''. u_lock t w' = Returned w'' \<and> wait_calls w'' = wait_calls w' + 1 \<and>
                             owner (mem w'') = t \<and>
                             events w'' h = Some \<lparr>signaled = False, auto_clear = True\<rparr>)))))"
  by (auto simp: u_create_lock_def PalEventCreate_def log_call_def Let_def pal_error_def
        u_lock_signaled wait_calls_def)

theorem create_lock_behaviour_witness:
  "fst (u_create_lock world0) \<and>
   lock (mem (snd (u_create_lock world0))) = Some 1 \<and>
   calls (snd (u_create_lock world0)) =
     [(Call_PalEventCreate True True, \<lparr>lock = None, owner = 0\<rparr>)] \<and>
   (\<exists>w''. u_lock 7 (snd (u_create_lock world0)) = Returned w'' \<and>
          wait_calls w'' = wait_calls (snd (u_create_lock world0)) + 1 \<and>
          owner (mem w'') = 7) \<and>
   \<not> fst (u_create_lock (world0\<lparr>mem := \<lparr>lock = None, owner = 7\<rparr>, create_faults := 1\<rparr>)) \<and>
   owner (mem (snd (u_create_lock
                      (world0\<lparr>mem := \<lparr>lock = None, owner = 7\<rparr>, create_faults := 1\<rparr>)))) = 0"
proof -
  have a: "u_create_lock world0 =
      (True, world0\<lparr>mem := \<lparr>lock = Some 1, owner = 0\<rparr>,
                    events := [1 \<mapsto> \<lparr>signaled = True, auto_clear = True\<rparr>],
                    next_handle := 2,
                    calls := [(Call_PalEventCreate True True, \<lparr>lock = None, owner = 0\<rparr>)]\<rparr>)"
    by (simp add: u_create_lock_def PalEventCreate_def log_call_def Let_def world0_def)
  have b: "u_create_lock (world0\<lparr>mem := \<lparr>lock = None, owner = 7\<rparr>, create_faults := 1\<rparr>) =
      (False, world0\<lparr>calls := [(Call_PalEventCreate True True, \<lparr>lock = None, owner = 0\<rparr>)]\<rparr>)"
    by (simp add: u_create_lock_def PalEventCreate_def log_call_def Let_def world0_def
          pal_error_def)
  from create_lock_behaviour [of world0 7] have
    "\<exists>w''. u_lock 7 (snd (u_create_lock world0)) = Returned w'' \<and>
          wait_calls w'' = wait_calls (snd (u_create_lock world0)) + 1 \<and>
          owner (mem w'') = 7"
    unfolding a by (simp add: world0_def) blast
  moreover
  from create_lock_behaviour [of "world0\<lparr>mem := \<lparr>lock = None, owner = 7\<rparr>, create_faults := 1\<rparr>" 7]
  have "owner (mem (snd (u_create_lock
                      (world0\<lparr>mem := \<lparr>lock = None, owner = 7\<rparr>, create_faults := 1\<rparr>)))) = 0"
    unfolding b by (simp add: world0_def)
  ultimately show ?thesis
    unfolding a b by (simp add: world0_def)
qed

text \<open>
  C6. On a lock with a valid handle \<^verbatim>\<open>_destroy_lock\<close> is \<^verbatim>\<open>PalObjectDestroy\<close> on
  that handle followed by \<^verbatim>\<open>_clear_lock\<close>: it makes exactly one call, the destroy of
  the handle the lock holds (made while the lock still holds it), the event is no longer
  live, and the lock ends as \<^verbatim>\<open>_clear_lock\<close> would leave it, handle and owner both
  empty.
\<close>

theorem destroy_lock_semantics:
  assumes "lock (mem w) = Some h"
  shows "u_destroy_lock w = u_clear_lock (PalObjectDestroy (Some h) w) \<and>
         calls (u_destroy_lock w) = calls w @ [(Call_PalObjectDestroy (Some h), mem w)] \<and>
         events (u_destroy_lock w) = (events w)(h := None) \<and>
         mem (u_destroy_lock w) = mem (u_clear_lock w) \<and>
         lock (mem (u_destroy_lock w)) = None \<and> owner (mem (u_destroy_lock w)) = 0"
  using assms
  by (simp add: u_destroy_lock_def u_clear_lock_def PalObjectDestroy_def log_call_def Let_def)

theorem destroy_lock_semantics_witness:
  "lock (mem world1) = Some 1 \<and>
   calls (u_destroy_lock world1) = [(Call_PalObjectDestroy (Some 1), \<lparr>lock = Some 1, owner = 0\<rparr>)] \<and>
   events (u_destroy_lock world1) 1 = None \<and>
   mem (u_destroy_lock world1) = \<lparr>lock = None, owner = 0\<rparr>"
proof -
  have h: "lock (mem world1) = Some 1"
    by (simp add: world1_def)
  from destroy_lock_semantics [OF h, THEN conjunct2] h show ?thesis
    by (simp add: world1_def world0_def u_clear_lock_eq)
qed

subsection \<open>The empty handle\<close>

text \<open>
  \<^verbatim>\<open>_lock\<close> and \<^verbatim>\<open>_unlock\<close> on a lock whose handle is empty fail their assertion
  before anything else happens: the world at the failure is the world of the call, with
  no store and no call made. \<^verbatim>\<open>_destroy_lock\<close> has no such line: the first thing it
  does, whatever the handle, is to call \<^verbatim>\<open>PalObjectDestroy\<close> with it.
\<close>

lemma empty_handle_lock_unlock:
  "lock (mem w) = None \<Longrightarrow> u_lock t w = Aborted w \<and> u_unlock w = Aborted w"
  by (simp add: u_lock_def u_unlock_def)

lemma destroy_lock_first_call:
  "take (Suc (length (calls w))) (calls (u_destroy_lock w)) =
     calls w @ [(Call_PalObjectDestroy (lock (mem w)), mem w)]"
  by (simp add: u_destroy_lock_def u_clear_lock_def PalObjectDestroy_def log_call_def Let_def
        split: option.splits)


subsection \<open>The query \<^verbatim>\<open>lock_created\<close>\<close>

text \<open>
  C10. \<^verbatim>\<open>lock_created\<close> is true exactly when the handle is not \<^verbatim>\<open>NULL\<close>: true after
  a \<^verbatim>\<open>_create_lock\<close> that returned true, false after \<^verbatim>\<open>_clear_lock\<close> and after
  \<^verbatim>\<open>_destroy_lock\<close>. It only reads the lock: it is a function from the world to a
  truth value and returns no world.
\<close>

theorem lock_created_query:
  "lock_created w = (lock (mem w) \<noteq> None) \<and>
   (\<forall>w'. u_create_lock w = (True, w') \<longrightarrow> lock_created w') \<and>
   \<not> lock_created (u_clear_lock w) \<and>
   \<not> lock_created (u_destroy_lock w)"
  by (auto simp: lock_created_def u_create_lock_def PalEventCreate_def log_call_def Let_def
        u_clear_lock_def u_destroy_lock_def pal_error_def split: if_splits)

theorem lock_created_query_witness:
  "fst (u_create_lock world0) \<and> lock_created (snd (u_create_lock world0)) \<and>
   \<not> lock_created world0 \<and> lock_created world1 \<and>
   \<not> lock_created (u_clear_lock world1) \<and> \<not> lock_created (u_destroy_lock world1)"
proof -
  have a: "u_create_lock world0 = (True, snd (u_create_lock world0))"
    by (simp add: u_create_lock_def PalEventCreate_def log_call_def Let_def world0_def)
  from lock_created_query [of world0] a
  have "lock_created (snd (u_create_lock world0))" "\<not> lock_created world0"
    by (blast, simp add: world0_def)
  moreover from lock_created_query [of world1]
  have "lock_created world1" "\<not> lock_created (u_clear_lock world1)"
    "\<not> lock_created (u_destroy_lock world1)"
    by (simp_all add: world1_def)
  moreover from a have "fst (u_create_lock world0)"
    by (metis fst_conv)
  ultimately show ?thesis by simp
qed

subsection \<open>Tracing\<close>

lemma trace_at_eq:
  "trace_at fmt p m =
     m\<lparr>sys := (sys m)\<lparr>calls := calls (sys m) @ [(Call_log_trace fmt (lock (locks m p)), locks m p)]\<rparr>\<rparr>"
  by (simp add: trace_at_def unfocus_def focus_def log_trace_def log_call_def)







lemma var_p_call_at:
  "var_p (machine_of (call_at func p m)) = var_p m"
  by (simp add: call_at_def unfocus_def split: outcome.splits)








text \<open>
  A thread that goes through the three operands of the tracing \<^verbatim>\<open>create_lock\<close> with no
  other thread in between, on an argument without side effects, gets what
  \<^verbatim>\<open>_create_lock\<close> returned to it.
\<close>

lemma create_run_alone:
  assumes "create_pcs c t = Not_begun" and "\<forall>x. args t x = (f (var_p x), x)"
  shows "create_pcs (create_run args nm [t, t, t] c) t =
           Yielded (fst (create_lock_store (args t) (machine_now c)))
                   (fst (create_lock_store (args t) (machine_now c))) \<and>
         machine_now (create_run args nm [t, t, t] c) =
           snd (create_lock_tracing (args t) nm (machine_now c)) \<and>
         fst (create_lock_tracing (args t) nm (machine_now c)) =
           fst (create_lock_store (args t) (machine_now c))"
  using assms
  by (simp add: create_step_def create_lock_tracing_def create_lock_store_def
        create_lock_trace_def create_lock_yield_def trace_at_eq unfocus_def Let_def
        split: prod.splits)




subsection \<open>Mutual exclusion\<close>

text \<open>
  The invariant of the interleaved runs: the lock has a handle, its event is live and
  auto-clearing, at most one thread has the signal, and none has it while the event is
  signaled.
\<close>

lemma has_signal_simps [simp]:
  "\<not> has_signal Idle" "\<not> has_signal At_wait" "has_signal At_store" "has_signal Critical"
  "has_signal At_clear" "has_signal At_set"
  by (simp_all add: has_signal_def)

lemma lock_invI:
  "lock (mem (shared s)) = Some h \<Longrightarrow> events (shared s) h = Some e \<Longrightarrow> auto_clear e \<Longrightarrow>
   (signaled e \<Longrightarrow> \<forall>t. \<not> has_signal (pcs s t)) \<Longrightarrow>
   (\<forall>t u. has_signal (pcs s t) \<longrightarrow> has_signal (pcs s u) \<longrightarrow> t = u) \<Longrightarrow> lock_inv s"
  unfolding lock_inv_def by blast

lemma lock_inv_step:
  assumes "lock_inv s"
  shows "lock_inv (step t s)"
proof -
  from assms obtain h e where
    h: "lock (mem (shared s)) = Some h" and e: "events (shared s) h = Some e" and
    ac: "auto_clear e" and
    sg: "signaled e \<Longrightarrow> \<forall>t. \<not> has_signal (pcs s t)" and
    un: "\<forall>t u. has_signal (pcs s t) \<longrightarrow> has_signal (pcs s u) \<longrightarrow> t = u"
    unfolding lock_inv_def by blast
  show ?thesis
  proof (cases "crashed s")
    case True
    with assms show ?thesis by (simp add: step_def)
  next
    case nc: False
    show ?thesis
    proof (cases "pcs s t")
      case Idle
      with nc h have "step t s = s\<lparr>pcs := (pcs s)(t := At_wait)\<rparr>" by (simp add: step_def)
      moreover have "lock_inv (s\<lparr>pcs := (pcs s)(t := At_wait)\<rparr>)"
        using h e ac sg un by (intro lock_invI [of _ h e]) auto
      ultimately show ?thesis by simp
    next
      case At_wait
      show ?thesis
      proof (cases "0 < wait_faults (shared s)")
        case True
        then have "step t s = s\<lparr>shared := (shared s)\<lparr>wait_faults := wait_faults (shared s) - 1,
            calls := calls (shared s) @ [(Call_PalEventWait (Some h), mem (shared s))]\<rparr>\<rparr>"
          using nc At_wait h
          by (simp add: step_def PalEventWait_def log_call_def Let_def pal_error_def)
        moreover have "lock_inv (s\<lparr>shared := (shared s)\<lparr>wait_faults := wait_faults (shared s) - 1,
            calls := calls (shared s) @ [(Call_PalEventWait (Some h), mem (shared s))]\<rparr>\<rparr>)"
          using h e ac sg un by (intro lock_invI [of _ h e]) auto
        ultimately show ?thesis by simp
      next
        case nf: False
        show ?thesis
        proof (cases "signaled e")
          case True
          let ?s' = "s\<lparr>shared := (shared s)\<lparr>
               calls := calls (shared s) @ [(Call_PalEventWait (Some h), mem (shared s))],
               events := (events (shared s))(h \<mapsto> e\<lparr>signaled := False\<rparr>)\<rparr>,
               pcs := (pcs s)(t := At_store)\<rparr>"
          have "step t s = ?s'"
            using nc At_wait h e ac nf True
            by (simp add: step_def PalEventWait_def log_call_def Let_def)
          moreover have "lock_inv ?s'"
            using h e ac sg [OF True] by (intro lock_invI [of _ h "e\<lparr>signaled := False\<rparr>"]) auto
          ultimately show ?thesis by simp
        next
          case False
          then have "step t s = s"
            using nc At_wait h e nf
            by (simp add: step_def PalEventWait_def log_call_def Let_def)
          with assms show ?thesis by simp
        qed
      qed
    next
      case At_store
      let ?s' = "s\<lparr>shared := (shared s)\<lparr>mem := (mem (shared s))\<lparr>owner := t\<rparr>\<rparr>,
                   pcs := (pcs s)(t := Critical)\<rparr>"
      have "step t s = ?s'" using nc At_store by (simp add: step_def)
      moreover have "lock_inv ?s'"
      proof (rule lock_invI [of _ h e])
        show "signaled e \<Longrightarrow> \<forall>u. \<not> has_signal (pcs ?s' u)"
          using sg At_store by (metis has_signal_simps(3))
        show "\<forall>u v. has_signal (pcs ?s' u) \<longrightarrow> has_signal (pcs ?s' v) \<longrightarrow> u = v"
          using un At_store by (auto split: if_splits; metis has_signal_simps(3))
      qed (use h e ac in auto)
      ultimately show ?thesis by simp
    next
      case Critical
      let ?s' = "s\<lparr>pcs := (pcs s)(t := At_clear)\<rparr>"
      have "step t s = ?s'" using nc Critical h by (simp add: step_def)
      moreover have "lock_inv ?s'"
      proof (rule lock_invI [of _ h e])
        show "signaled e \<Longrightarrow> \<forall>u. \<not> has_signal (pcs ?s' u)"
          using sg Critical by (metis has_signal_simps(4))
        show "\<forall>u v. has_signal (pcs ?s' u) \<longrightarrow> has_signal (pcs ?s' v) \<longrightarrow> u = v"
          using un Critical by (auto split: if_splits; metis has_signal_simps(4))
      qed (use h e ac in auto)
      ultimately show ?thesis by simp
    next
      case At_clear
      let ?s' = "s\<lparr>shared := (shared s)\<lparr>mem := (mem (shared s))\<lparr>owner := 0\<rparr>\<rparr>,
                   pcs := (pcs s)(t := At_set)\<rparr>"
      have "step t s = ?s'" using nc At_clear by (simp add: step_def)
      moreover have "lock_inv ?s'"
      proof (rule lock_invI [of _ h e])
        show "signaled e \<Longrightarrow> \<forall>u. \<not> has_signal (pcs ?s' u)"
          using sg At_clear by (metis has_signal_simps(5))
        show "\<forall>u v. has_signal (pcs ?s' u) \<longrightarrow> has_signal (pcs ?s' v) \<longrightarrow> u = v"
          using un At_clear by (auto split: if_splits; metis has_signal_simps(5))
      qed (use h e ac in auto)
      ultimately show ?thesis by simp
    next
      case At_set
      let ?s' = "s\<lparr>shared := (shared s)\<lparr>
               calls := calls (shared s) @ [(Call_PalEventSet (Some h), mem (shared s))],
               events := (events (shared s))(h \<mapsto> e\<lparr>signaled := True\<rparr>)\<rparr>,
               pcs := (pcs s)(t := Idle)\<rparr>"
      have "step t s = ?s'"
        using nc At_set h e by (simp add: step_def PalEventSet_def log_call_def Let_def)
      moreover have "lock_inv ?s'"
      proof (rule lock_invI [of _ h "e\<lparr>signaled := True\<rparr>"])
        show "\<forall>u. \<not> has_signal (pcs ?s' u)"
          using un At_set by (auto; metis has_signal_simps(6))
        then show "\<forall>u v. has_signal (pcs ?s' u) \<longrightarrow> has_signal (pcs ?s' v) \<longrightarrow> u = v"
          by blast
      qed (use h e ac in auto)
      ultimately show ?thesis by simp
    qed
  qed
qed

lemma lock_inv_act: "lock_inv s \<Longrightarrow> lock_inv (act m s)"
proof (cases m)
  case (Run t)
  assume "lock_inv s"
  with Run show ?thesis by (simp add: act_def lock_inv_step)
next
  case Interrupt
  assume "lock_inv s"
  with Interrupt show ?thesis by (simp add: act_def lock_inv_def)
qed

lemma lock_inv_run: "lock_inv s \<Longrightarrow> lock_inv (run ms s)"
  by (induction ms arbitrary: s) (simp_all add: lock_inv_act)

lemma lock_inv_start:
  "u_create_lock w0 = (True, w) \<Longrightarrow> lock_inv (start w)"
  by (auto simp: u_create_lock_def PalEventCreate_def log_call_def Let_def start_def
        lock_inv_def pal_error_def split: if_splits)

subsection \<open>The statements and the functions agree\<close>

lemma run_append: "run (xs @ ys) s = run ys (run xs s)"
  by (induction xs arbitrary: s) simp_all

lemma run_wait_alone:
  "\<not> crashed s \<Longrightarrow> pcs s t = At_wait \<Longrightarrow> lock (mem (shared s)) = Some h \<Longrightarrow>
   events (shared s) h = Some e \<Longrightarrow> signaled e \<Longrightarrow>
   \<exists>w1. lock_wait_loop (shared s) = Returned w1 \<and>
        run (replicate (Suc (wait_faults (shared s))) (Run t)) s =
          s\<lparr>shared := w1, pcs := (pcs s)(t := At_store)\<rparr>"
proof (induction "wait_faults (shared s)" arbitrary: s)
  case 0
  from PalEventWait_granted [of "shared s" h e] "0.hyps" "0.prems"
  obtain w1 where g: "PalEventWait (lock (mem (shared s))) (shared s) = (Some 0, w1)"
    by simp
  have "lock_wait_loop (shared s) = Returned w1"
    by (rule lock_wait_loop_step(2) [OF g]) simp
  moreover have "act (Run t) s = s\<lparr>shared := w1, pcs := (pcs s)(t := At_store)\<rparr>"
    using "0.prems"(1,2) g by (simp add: act_def step_def)
  ultimately show ?case
    using "0.hyps" by (simp add: fun_upd_def)
next
  case (Suc n)
  let ?w1 = "(shared s)\<lparr>wait_faults := wait_faults (shared s) - 1,
               calls := calls (shared s) @ [(Call_PalEventWait (Some h), mem (shared s))]\<rparr>"
  have pos: "0 < wait_faults (shared s)" using Suc.hyps(2) by simp
  have f: "PalEventWait (lock (mem (shared s))) (shared s) = (Some pal_error, ?w1)"
    using pos Suc.prems(3) by (simp add: PalEventWait_fault)
  have st: "act (Run t) s = s\<lparr>shared := ?w1\<rparr>"
    using Suc.prems(1,2) f by (simp add: act_def step_def pal_error_def)
  have lp: "lock_wait_loop (shared s) = lock_wait_loop ?w1"
    by (rule lock_wait_loop_step(1) [OF f]) (simp add: pal_error_def)
  have n: "n = wait_faults (shared (s\<lparr>shared := ?w1\<rparr>))" using Suc.hyps(2) by simp
  from Suc.hyps(1) [OF n] Suc.prems
  obtain w1 where "lock_wait_loop ?w1 = Returned w1"
    "run (replicate (Suc (wait_faults ?w1)) (Run t)) (s\<lparr>shared := ?w1\<rparr>) =
       s\<lparr>shared := w1, pcs := (pcs s)(t := At_store)\<rparr>"
    by auto
  moreover have "Suc (wait_faults ?w1) = wait_faults (shared s)" using pos by simp
  ultimately show ?case
    using lp st by simp
qed

text \<open>
  A thread that runs alone, one statement at a time, from \<open>Idle\<close> to \<open>Critical\<close>
  does what \<^verbatim>\<open>_lock\<close> does as a whole, and from \<open>Critical\<close> back to \<open>Idle\<close>
  what \<^verbatim>\<open>_unlock\<close> does.
\<close>

lemma run_lock_alone:
  assumes "\<not> crashed s" and "pcs s t = Idle" and "lock (mem (shared s)) = Some h"
    and "events (shared s) h = Some e" and "signaled e"
  shows "\<exists>w'. u_lock t (shared s) = Returned w' \<and>
           run (replicate (wait_faults (shared s) + 3) (Run t)) s =
             s\<lparr>shared := w', pcs := (pcs s)(t := Critical)\<rparr>"
proof -
  let ?s1 = "s\<lparr>pcs := (pcs s)(t := At_wait)\<rparr>"
  have s1: "act (Run t) s = ?s1"
    using assms by (simp add: act_def step_def)
  from run_wait_alone [of ?s1 t h e] assms
  obtain w1 where w1: "lock_wait_loop (shared s) = Returned w1"
    "run (replicate (Suc (wait_faults (shared s))) (Run t)) ?s1 =
       s\<lparr>shared := w1, pcs := (pcs s)(t := At_store)\<rparr>"
    by auto
  have split: "replicate (wait_faults (shared s) + 3) (Run t) =
      Run t # replicate (Suc (wait_faults (shared s))) (Run t) @ [Run t]"
    by (simp add: replicate_append_same numeral_3_eq_3)
  have "run (replicate (wait_faults (shared s) + 3) (Run t)) s =
      run [Run t] (run (replicate (Suc (wait_faults (shared s))) (Run t)) (act (Run t) s))"
    unfolding split by (simp only: run.simps run_append)
  also have "\<dots> = act (Run t) (s\<lparr>shared := w1, pcs := (pcs s)(t := At_store)\<rparr>)"
    unfolding s1 w1(2) by simp
  also have "\<dots> = s\<lparr>shared := w1\<lparr>mem := (mem w1)\<lparr>owner := t\<rparr>\<rparr>, pcs := (pcs s)(t := Critical)\<rparr>"
    using assms(1) by (simp add: act_def step_def)
  finally show ?thesis
    using assms(3) w1(1) by (simp add: u_lock_def)
qed

lemma run_unlock_alone:
  assumes "\<not> crashed s" and "pcs s t = Critical" and "lock (mem (shared s)) \<noteq> None"
  shows "\<exists>w'. u_unlock (shared s) = Returned w' \<and>
           run [Run t, Run t, Run t] s = s\<lparr>shared := w', pcs := (pcs s)(t := Idle)\<rparr>"
proof -
  let ?s1 = "s\<lparr>pcs := (pcs s)(t := At_clear)\<rparr>"
  let ?w2 = "(shared s)\<lparr>mem := (mem (shared s))\<lparr>owner := 0\<rparr>\<rparr>"
  let ?s2 = "s\<lparr>shared := ?w2, pcs := (pcs s)(t := At_set)\<rparr>"
  let ?w3 = "PalEventSet (lock (mem ?w2)) ?w2"
  have 1: "act (Run t) s = ?s1"
    using assms by (auto simp: act_def step_def)
  have 2: "act (Run t) ?s1 = ?s2"
    using assms(1) by (simp add: act_def step_def)
  have 3: "act (Run t) ?s2 = s\<lparr>shared := ?w3, pcs := (pcs s)(t := Idle)\<rparr>"
    using assms(1) by (simp add: act_def step_def)
  have "u_unlock (shared s) = Returned ?w3"
    using assms(3) by (auto simp: u_unlock_def Let_def)
  moreover have "run [Run t, Run t, Run t] s = s\<lparr>shared := ?w3, pcs := (pcs s)(t := Idle)\<rparr>"
    by (simp only: run.simps 1 2 3)
  ultimately show ?thesis by blast
qed

subsection \<open>No two threads in the critical section\<close>

text \<open>
  C1. Start from a lock that \<^verbatim>\<open>_create_lock\<close> has just created successfully, with
  every thread outside. Whatever the schedule (which thread executes its next statement
  of \<^verbatim>\<open>_lock\<close> or \<^verbatim>\<open>_unlock\<close>, and when the platform's wait reports a transient
  error), when a thread is in its critical section, that is \<^verbatim>\<open>_lock\<close> has returned
  to it and it has not called \<^verbatim>\<open>_unlock\<close> yet, no other thread is.
\<close>

theorem mutual_exclusion:
  assumes "u_create_lock w0 = (True, w)"
    and "pcs (run ms (start w)) t = Critical" and "u \<noteq> t"
  shows "pcs (run ms (start w)) u \<noteq> Critical"
proof -
  have "lock_inv (run ms (start w))"
    using assms(1) by (intro lock_inv_run lock_inv_start)
  with assms(2,3) show ?thesis
    unfolding lock_inv_def by (metis has_signal_simps(4))
qed

theorem mutual_exclusion_witness:
  "u_create_lock world0 = (True, snd (u_create_lock world0)) \<and>
   pcs (run [Run 1, Run 2, Run 1, Run 2, Run 1, Run 2] (start (snd (u_create_lock world0)))) 1
     = Critical \<and>
   (2::nat) \<noteq> 1 \<and>
   pcs (run [Run 1, Run 2, Run 1, Run 2, Run 1, Run 2] (start (snd (u_create_lock world0)))) 2
     \<noteq> Critical"
proof -
  have a: "u_create_lock world0 = (True, snd (u_create_lock world0))"
    by (simp add: u_create_lock_def PalEventCreate_def log_call_def Let_def world0_def)
  have b: "pcs (run [Run 1, Run 2, Run 1, Run 2, Run 1, Run 2]
                 (start (snd (u_create_lock world0)))) 1 = Critical"
    by (simp add: step_def act_def start_def u_create_lock_def PalEventCreate_def
          PalEventWait_def log_call_def Let_def world0_def pal_error_def)
  have c: "(2::nat) \<noteq> 1" by simp
  from mutual_exclusion [OF a b c] a b c show ?thesis by blast
qed

text \<open>
  The exclusion comes from the event resetting itself when a wait is granted: on an event
  created without auto-clear the same code lets two threads into the critical section
  together.
\<close>

lemma no_auto_clear_no_exclusion:
  "pcs (run [Run 1, Run 1, Run 1, Run 2, Run 2, Run 2]
         (start (snd (PalEventCreate True False world0)))) 1 = Critical \<and>
   pcs (run [Run 1, Run 1, Run 1, Run 2, Run 2, Run 2]
         (start (snd (PalEventCreate True False world0)))) 2 = Critical"
  by (simp add: step_def act_def start_def PalEventCreate_def PalEventWait_def
        log_call_def Let_def world0_def pal_error_def)

end
